theory Spec2Isabelle
  imports Main "HOL-Library.Sublist"
begin

section \<open>The trailing-fence scanner (scripts/find_trailing_fence.py)\<close>

text \<open>
  The script walks the current directory with \<^verbatim>\<open>os.walk('.')\<close>, skips every
  walked directory whose path contains one of three substrings, opens each file whose
  name ends in \<^verbatim>\<open>.md\<close>, and collects the path when the last line of the text,
  stripped, is three backticks. It then prints either a fixed message or a header and
  the collected paths.

  The script's own code is the two loops and the report. What it calls from the Python
  library (\<^verbatim>\<open>os.walk\<close>, \<^verbatim>\<open>os.path.join\<close>, \<^verbatim>\<open>str.splitlines\<close>,
  \<^verbatim>\<open>str.strip\<close>, \<^verbatim>\<open>str.endswith\<close>, \<^verbatim>\<open>in\<close> on strings) is modelled
  from the library's documented behaviour, and what it reads from the outside (the
  directory tree, the outcome of opening and reading a path) is a parameter.
\<close>

subsection \<open>Python strings\<close>

text \<open>
  A Python \<^verbatim>\<open>str\<close> is a \<^typ>\<open>string\<close>, one \<^typ>\<open>char\<close> per code point (so code
  points up to 255). \<^verbatim>\<open>sub in s\<close> is the contiguous-sublist test and
  \<^verbatim>\<open>s.endswith(t)\<close> the suffix test of the list library.
\<close>

definition str_in :: "string \<Rightarrow> string \<Rightarrow> bool" where
  "str_in sub s = sublist sub s"

definition endswith :: "string \<Rightarrow> string \<Rightarrow> bool" where
  "endswith s t = suffix t s"

text \<open>
  \<^verbatim>\<open>str.isspace\<close> for one character: the code points below 256 that Python
  treats as whitespace (tab, line feed, vertical tab, form feed, carriage return, the
  four information separators, space, next line, no-break space).
\<close>

definition isspace :: "char \<Rightarrow> bool" where
  "isspace c = (c \<in> set [CHR 0x09, CHR 0x0A, CHR 0x0B, CHR 0x0C, CHR 0x0D,
                          CHR 0x1C, CHR 0x1D, CHR 0x1E, CHR 0x1F, CHR 0x20,
                          CHR 0x85, CHR 0xA0])"

text \<open>\<^verbatim>\<open>s.strip()\<close>: leading and trailing whitespace removed.\<close>

definition strip :: "string \<Rightarrow> string" where
  "strip s = rev (dropWhile isspace (rev (dropWhile isspace s)))"

text \<open>
  The line boundaries of \<^verbatim>\<open>str.splitlines\<close> below code point 256: line feed,
  vertical tab, form feed, carriage return, file, group and record separator, next
  line. A carriage return directly followed by a line feed is one boundary.
\<close>

definition is_linebreak :: "char \<Rightarrow> bool" where
  "is_linebreak c = (c \<in> set [CHR 0x0A, CHR 0x0B, CHR 0x0C, CHR 0x0D,
                               CHR 0x1C, CHR 0x1D, CHR 0x1E, CHR 0x85])"

text \<open>
  \<^verbatim>\<open>s.splitlines()\<close>, as the library's scan does it: \<open>cur\<close> is the line read so
  far. A boundary ends the current line (also an empty one); the end of the text ends
  it only when it is not empty, so that a text ending in a boundary has no empty last
  line and the empty text has no line at all.
\<close>

fun splitlines_from :: "string \<Rightarrow> string \<Rightarrow> string list" where
  "splitlines_from cur [] = (if cur = [] then [] else [cur])"
| "splitlines_from cur (c # cs) =
     (if is_linebreak c then
        cur # (case cs of
                 [] \<Rightarrow> []
               | d # ds \<Rightarrow>
                   if c = CHR 0x0D \<and> d = CHR 0x0A then splitlines_from [] ds
                   else splitlines_from [] (d # ds))
      else splitlines_from (cur @ [c]) cs)"

definition splitlines :: "string \<Rightarrow> string list" where
  "splitlines s = splitlines_from [] s"

subsection \<open>The directory tree and \<^verbatim>\<open>os.walk\<close>\<close>

text \<open>
  What \<^verbatim>\<open>os.scandir\<close> reports for a directory is a list of entries, in the
  order the operating system gives them. An entry is a directory, with its own listing,
  or anything else (a file). The listing of a directory is \<open>None\<close> when listing it
  fails.
\<close>

datatype entry = File string | Dir string "entry list option"

fun dirnames :: "entry list \<Rightarrow> string list" where
  "dirnames [] = []"
| "dirnames (File f # es) = dirnames es"
| "dirnames (Dir d l # es) = d # dirnames es"

fun filenames :: "entry list \<Rightarrow> string list" where
  "filenames [] = []"
| "filenames (File f # es) = f # filenames es"
| "filenames (Dir d l # es) = filenames es"

text \<open>
  \<^verbatim>\<open>os.path.join(a, b)\<close> of \<^verbatim>\<open>posixpath\<close>, for two components: an absolute
  \<open>b\<close> replaces \<open>a\<close>; otherwise \<open>b\<close> is appended, after a slash unless \<open>a\<close> is empty
  or ends in one.
\<close>

definition os_path_join :: "string \<Rightarrow> string \<Rightarrow> string" where
  "os_path_join a b =
     (if prefix ''/'' b then b
      else if a = [] \<or> endswith a ''/'' then a @ b
      else a @ ''/'' @ b)"

text \<open>
  \<^verbatim>\<open>os.walk(top)\<close> with its defaults (top-down, \<^verbatim>\<open>onerror=None\<close>, links not
  followed), as the list of the triples \<^verbatim>\<open>(root, dirs, files)\<close> it yields. A
  directory whose listing fails yields nothing: the error is dropped. Otherwise the
  directory's own triple comes first, then the walk of each subdirectory in the order of
  \<open>dirs\<close>. The caller may prune the walk by editing \<open>dirs\<close> in place; the script never
  does, so every listed subdirectory is walked.
\<close>

function os_walk :: "string \<Rightarrow> entry list option \<Rightarrow> (string \<times> string list \<times> string list) list" where
  "os_walk tp None = []"
| "os_walk tp (Some es) =
     (tp, dirnames es, filenames es) #
     concat (map (\<lambda>e. case e of
                         File f \<Rightarrow> []
                       | Dir d l \<Rightarrow> os_walk (os_path_join tp d) l) es)"
  by pat_completeness auto
termination
proof (relation "measure (\<lambda>(tp, l). size_option (size_list size) l)")
  show "wf (measure (\<lambda>(tp, l). size_option (size_list size) l))"
    by simp
next
  fix tp :: string and es :: "entry list" and e :: entry and d :: string
    and l :: "entry list option"
  assume "e \<in> set es" and "e = Dir d l"
  then have "size (Dir d l) \<le> size_list size es"
    by (metis size_list_estimation' order_refl)
  then show "((os_path_join tp d, l), (tp, Some es))
      \<in> measure (\<lambda>(tp, l). size_option (size_list size) l)"
    by simp
qed

subsection \<open>Opening and reading a file\<close>

text \<open>
  The exceptions that opening, reading and decoding a file can raise. All of them are
  subclasses of \<^verbatim>\<open>Exception\<close>, which is what the script catches.
\<close>

datatype py_exception =
  PermissionError | FileNotFoundError | UnicodeDecodeError | OtherException string

text \<open>
  The outcome of \<^verbatim>\<open>open(path, 'r', encoding='utf-8')\<close> followed by
  \<^verbatim>\<open>fh.read()\<close> is a parameter \<open>rd\<close> of the model: for each path either the
  exception raised or the text that \<^verbatim>\<open>read\<close> returns (decoded, and with the
  newline translation of text mode done).
\<close>

type_synonym reader = "string \<Rightarrow> py_exception + string"

subsection \<open>The script\<close>

text \<open>
  The test of the outer loop,
  \<^verbatim>\<open>'.git' in root or 'node_modules' in root or '.venv' in root\<close>.
\<close>

definition excluded :: "string \<Rightarrow> bool" where
  "excluded root =
     (str_in ''.git'' root \<or> str_in ''node_modules'' root \<or> str_in ''.venv'' root)"

text \<open>
  The inner loop \<^verbatim>\<open>for f in files\<close>, with the list \<open>found\<close> passed through.
  The \<^verbatim>\<open>try\<close> block covers the open, the read and the test, and its handler
  goes on with the next file. In Python the test \<^verbatim>\<open>len(lines) > 0 and ...\<close>
  does not evaluate \<^verbatim>\<open>lines[-1]\<close> on an empty list; here \<^term>\<open>last []\<close> is some
  string, and the first conjunct decides.
\<close>

fun files_loop :: "reader \<Rightarrow> string \<Rightarrow> string list \<Rightarrow> string list \<Rightarrow> string list" where
  "files_loop rd root [] found = found"
| "files_loop rd root (f # files) found =
     (if endswith f ''.md'' then
        (let path = os_path_join root f in
         case rd path of
           Inl e \<Rightarrow> files_loop rd root files found
         | Inr text \<Rightarrow>
             (let lines = splitlines text in
              if length lines > 0 \<and> strip (last lines) = ''```''
              then files_loop rd root files (found @ [path])
              else files_loop rd root files found))
      else files_loop rd root files found)"

text \<open>The outer loop \<^verbatim>\<open>for root, dirs, files in os.walk('.')\<close>.\<close>

fun walk_loop ::
  "reader \<Rightarrow> (string \<times> string list \<times> string list) list \<Rightarrow> string list \<Rightarrow> string list" where
  "walk_loop rd [] found = found"
| "walk_loop rd ((root, dirs, files) # rest) found =
     (if excluded root then walk_loop rd rest found
      else walk_loop rd rest (files_loop rd root files found))"

text \<open>The list \<open>found\<close> after the walk of the current directory, whose listing is \<open>fs\<close>.\<close>

definition scan :: "reader \<Rightarrow> entry list option \<Rightarrow> string list" where
  "scan rd fs = walk_loop rd (os_walk ''.'' fs) []"

text \<open>\<^verbatim>\<open>print(s)\<close> appends the string and a line feed to the standard output.\<close>

definition py_print :: "string \<Rightarrow> string \<Rightarrow> string" where
  "py_print s out = out @ s @ [CHR 0x0A]"

fun print_loop :: "string list \<Rightarrow> string \<Rightarrow> string" where
  "print_loop [] out = out"
| "print_loop (p # ps) out = print_loop ps (py_print p out)"

definition report :: "string list \<Rightarrow> string" where
  "report found =
     (if found = [] then py_print ''No markdown files end with a trailing fence (```).'' []
      else print_loop found (py_print ''Files with trailing fence:'' []))"

text \<open>The whole script: the standard output of one run.\<close>

definition find_trailing_fence :: "reader \<Rightarrow> entry list option \<Rightarrow> string" where
  "find_trailing_fence rd fs = report (scan rd fs)"

subsection \<open>Notions used to state the properties\<close>

text \<open>
  The content test of the specification: the text, split into lines, has a last line, and
  that line stripped is the three backticks.
\<close>

definition trailing_fence :: "string \<Rightarrow> bool" where
  "trailing_fence text =
     (splitlines text \<noteq> [] \<and> strip (last (splitlines text)) = ''```'')"

text \<open>
  \<open>file_in tp l root f\<close>: in the tree with listing \<open>l\<close> at path \<open>tp\<close>, the
  directory reached under the path \<open>root\<close> can be listed and has a file named \<open>f\<close>.
\<close>

function file_in :: "string \<Rightarrow> entry list option \<Rightarrow> string \<Rightarrow> string \<Rightarrow> bool" where
  "file_in tp None root f = False"
| "file_in tp (Some es) root f =
     ((root = tp \<and> File f \<in> set es) \<or>
      (\<exists>e \<in> set es. case e of
                       File g \<Rightarrow> False
                     | Dir d l \<Rightarrow> file_in (os_path_join tp d) l root f))"
  by pat_completeness auto
termination
proof (relation "measure (\<lambda>(tp, l, root, f). size_option (size_list size) l)")
  show "wf (measure (\<lambda>(tp, l, root, f). size_option (size_list size) l))"
    by simp
next
  fix tp root f :: string and es :: "entry list" and e :: entry and d :: string
    and l :: "entry list option"
  assume "e \<in> set es" and "e = Dir d l"
  then have "size (Dir d l) \<le> size_list size es"
    by (metis size_list_estimation' order_refl)
  then show "((os_path_join tp d, l, root, f), (tp, Some es, root, f))
      \<in> measure (\<lambda>(tp, l, root, f). size_option (size_list size) l)"
    by simp
qed

text \<open>
  A name as a file system reports it: not empty, without a slash. A tree is well named
  when all its entries are.
\<close>

definition valid_name :: "string \<Rightarrow> bool" where
  "valid_name n = (n \<noteq> [] \<and> CHR ''/'' \<notin> set n)"

fun valid_entry :: "entry \<Rightarrow> bool" where
  "valid_entry (File f) = valid_name f"
| "valid_entry (Dir d None) = valid_name d"
| "valid_entry (Dir d (Some es)) = (valid_name d \<and> (\<forall>e \<in> set es. valid_entry e))"

definition valid_tree :: "entry list option \<Rightarrow> bool" where
  "valid_tree l = (case l of None \<Rightarrow> True | Some es \<Rightarrow> \<forall>e \<in> set es. valid_entry e)"

text \<open>
  The walk that the specification describes, to compare with \<open>os_walk\<close>: a traversal
  that never goes into a directory whose path is excluded, so that neither its files nor
  its subdirectories are listed. The script does not walk this way.
\<close>

function os_walk_pruned ::
  "string \<Rightarrow> entry list option \<Rightarrow> (string \<times> string list \<times> string list) list" where
  "os_walk_pruned tp None = []"
| "os_walk_pruned tp (Some es) =
     (if excluded tp then []
      else (tp, dirnames es, filenames es) #
           concat (map (\<lambda>e. case e of
                               File f \<Rightarrow> []
                             | Dir d l \<Rightarrow> os_walk_pruned (os_path_join tp d) l) es))"
  by pat_completeness auto
termination
proof (relation "measure (\<lambda>(tp, l). size_option (size_list size) l)")
  show "wf (measure (\<lambda>(tp, l). size_option (size_list size) l))"
    by simp
next
  fix tp :: string and es :: "entry list" and e :: entry and d :: string
    and l :: "entry list option"
  assume "e \<in> set es" and "e = Dir d l"
  then have "size (Dir d l) \<le> size_list size es"
    by (metis size_list_estimation' order_refl)
  then show "((os_path_join tp d, l), (tp, Some es))
      \<in> measure (\<lambda>(tp, l). size_option (size_list size) l)"
    by simp
qed

definition scan_pruned :: "reader \<Rightarrow> entry list option \<Rightarrow> string list" where
  "scan_pruned rd fs = walk_loop rd (os_walk_pruned ''.'' fs) []"

text \<open>
  The tree in which every directory that cannot be listed is replaced by an empty
  directory of the same name.
\<close>

fun as_empty :: "entry \<Rightarrow> entry" where
  "as_empty (File f) = File f"
| "as_empty (Dir d None) = Dir d (Some [])"
| "as_empty (Dir d (Some es)) = Dir d (Some (map as_empty es))"

subsection \<open>A sample tree\<close>

text \<open>
  A small tree on which the properties are instantiated: two Markdown files at the top,
  a \<^verbatim>\<open>.git\<close> directory with a file and a subdirectory, a directory that cannot
  be listed, and a \<^verbatim>\<open>docs\<close> directory with five files.
\<close>

definition sample_tree :: "entry list option" where
  "sample_tree = Some
     [File ''README.md'',
      File ''a.md'',
      Dir ''.git'' (Some [File ''x.md'', Dir ''objects'' (Some [File ''y.md''])]),
      Dir ''locked'' None,
      Dir ''docs'' (Some [File ''guide.md'', File ''archive.venv.md'', File ''notes.txt'',
                          File ''empty.md'', File ''code.md''])]"

text \<open>
  The reads on the sample tree: \<^verbatim>\<open>README.md\<close> and the files under
  \<^verbatim>\<open>.git\<close> end in a bare fence, \<^verbatim>\<open>a.md\<close> cannot be read,
  \<^verbatim>\<open>docs/guide.md\<close> has text after its fence, \<^verbatim>\<open>docs/archive.venv.md\<close>
  ends in a fence between blanks, \<^verbatim>\<open>docs/notes.txt\<close> is a bare fence,
  \<^verbatim>\<open>docs/empty.md\<close> has no bytes, \<^verbatim>\<open>docs/code.md\<close> ends in a fence with
  a language tag.
\<close>

definition sample_reader :: reader where
  "sample_reader p =
     (if p = ''./README.md'' then
        Inr (''# Title'' @ [CHR 0x0A] @ ''Some text'' @ [CHR 0x0A] @ ''```'')
      else if p = ''./a.md'' then Inl PermissionError
      else if p = ''./.git/x.md'' then Inr ''```''
      else if p = ''./.git/objects/y.md'' then Inr ''```''
      else if p = ''./docs/guide.md'' then
        Inr (''Intro'' @ [CHR 0x0A] @ ''```'' @ [CHR 0x0A] @ ''More text'')
      else if p = ''./docs/archive.venv.md'' then
        Inr (''x'' @ [CHR 0x0A] @ ''  ```  '' @ [CHR 0x0A])
      else if p = ''./docs/notes.txt'' then Inr ''```''
      else if p = ''./docs/empty.md'' then Inr []
      else if p = ''./docs/code.md'' then Inr (''text'' @ [CHR 0x0A] @ ''```python'')
      else Inl FileNotFoundError)"

section \<open>Properties\<close>

subsection \<open>The library functions\<close>

lemma set_filenames: "set (filenames es) = {f. File f \<in> set es}"
  by (induction es rule: filenames.induct) auto

lemma set_dirnames: "set (dirnames es) = {d. \<exists>l. Dir d l \<in> set es}"
  by (induction es rule: dirnames.induct) auto

lemma splitlines_from_Nil_iff: "splitlines_from cur s = [] \<longleftrightarrow> cur = [] \<and> s = []"
  by (induction cur s rule: splitlines_from.induct) (auto split: list.splits)

lemma splitlines_Nil_iff: "splitlines s = [] \<longleftrightarrow> s = []"
  by (simp add: splitlines_def splitlines_from_Nil_iff)

text \<open>
  The last element of \<open>splitlines\<close> is the last line in the usual sense: for a text
  that ends in a line feed followed by a non-empty line without boundaries, it is that
  line.
\<close>

lemma splitlines_from_plain:
  assumes "\<forall>c \<in> set s. \<not> is_linebreak c"
  shows "splitlines_from cur s = (if cur @ s = [] then [] else [cur @ s])"
  using assms by (induction s arbitrary: cur) simp_all

lemma last_splitlines_from:
  assumes "line \<noteq> []" and "\<forall>c \<in> set line. \<not> is_linebreak c"
  shows "last (splitlines_from cur (body @ CHR 0x0A # line)) = line"
proof (induction "length body" arbitrary: body cur rule: less_induct)
  case less
  have lf: "is_linebreak (CHR 0x0A)"
    by (simp add: is_linebreak_def)
  have plain: "splitlines_from [] line = [line]"
    using assms by (simp add: splitlines_from_plain)
  have ne: "splitlines_from c' (b' @ CHR 0x0A # line) \<noteq> []" for c' b'
    by (simp add: splitlines_from_Nil_iff)
  show ?case
  proof (cases body)
    case Nil
    with assms(1) lf plain show ?thesis
      by (cases line) simp_all
  next
    case (Cons c cs)
    show ?thesis
    proof (cases "is_linebreak c")
      case False
      with less [of cs "cur @ [c]"] Cons show ?thesis by simp
    next
      case True
      show ?thesis
      proof (cases cs)
        case Nil
        with Cons True plain lf assms(1) show ?thesis
          by (cases line) simp_all
      next
        case (Cons d ds)
        show ?thesis
        proof (cases "c = CHR 0x0D \<and> d = CHR 0x0A")
          case True
          with less [of ds "[]"] \<open>body = c # cs\<close> Cons \<open>is_linebreak c\<close> ne [of "[]" ds]
          show ?thesis by simp
        next
          case False
          with less [of cs "[]"] \<open>body = c # cs\<close> Cons \<open>is_linebreak c\<close> ne [of "[]" cs]
          show ?thesis by auto
        qed
      qed
    qed
  qed
qed

lemma last_splitlines:
  assumes "line \<noteq> []" and "\<forall>c \<in> set line. \<not> is_linebreak c"
  shows "last (splitlines (body @ CHR 0x0A # line)) = line"
  unfolding splitlines_def using assms by (rule last_splitlines_from)

lemma strip_fence_blanks: "strip ''  ```  '' = ''```''"
  by (simp add: strip_def isspace_def)

lemma strip_fence_python: "strip ''```python'' \<noteq> ''```''"
  by (simp add: strip_def isspace_def)

subsection \<open>The loops as list comprehensions\<close>

lemma files_loop_eq:
  "files_loop rd root files found =
     found @ map (os_path_join root)
       (filter (\<lambda>f. endswith f ''.md'' \<and>
          (case rd (os_path_join root f) of Inl e \<Rightarrow> False | Inr text \<Rightarrow> trailing_fence text))
        files)"
  by (induction files arbitrary: found)
     (auto simp: trailing_fence_def Let_def split: sum.splits)

lemma walk_loop_eq:
  "walk_loop rd ts found =
     found @ concat (map (\<lambda>(root, dirs, files).
                if excluded root then [] else files_loop rd root files []) ts)"
proof (induction ts arbitrary: found)
  case Nil
  then show ?case by simp
next
  case (Cons t ts)
  obtain root dirs files where t: "t = (root, dirs, files)"
    by (cases t) auto
  show ?case
    unfolding t by (simp add: Cons.IH files_loop_eq)
qed

lemma fence_case:
  "(case r of Inl e \<Rightarrow> False | Inr text \<Rightarrow> trailing_fence text) \<longleftrightarrow>
     (\<exists>text. r = Inr text \<and> trailing_fence text)"
  by (cases r) auto

lemma walk_file_in:
  "(\<exists>dirs files. (root, dirs, files) \<in> set (os_walk tp l) \<and> f \<in> set files)
     \<longleftrightarrow> file_in tp l root f"
proof (induction tp l rule: os_walk.induct)
  case (1 tp)
  then show ?case by simp
next
  case (2 tp es)
  let ?sub = "\<lambda>e. case e of File g \<Rightarrow> [] | Dir d l \<Rightarrow> os_walk (os_path_join tp d) l"
  let ?inl = "\<lambda>e. case e of File g \<Rightarrow> False | Dir d l \<Rightarrow> file_in (os_path_join tp d) l root f"
  have sub: "(\<exists>dirs files. (root, dirs, files) \<in> set (?sub e) \<and> f \<in> set files) \<longleftrightarrow> ?inl e"
    if "e \<in> set es" for e
  proof (cases e)
    case (File g)
    then show ?thesis by simp
  next
    case (Dir d l)
    with that "2.IH" [of e d l] show ?thesis by simp
  qed
  have walk: "set (os_walk tp (Some es)) =
      insert (tp, dirnames es, filenames es) (\<Union>e \<in> set es. set (?sub e))"
    by simp
  have inl: "file_in tp (Some es) root f \<longleftrightarrow>
      (root = tp \<and> File f \<in> set es) \<or> (\<exists>e \<in> set es. ?inl e)"
    by simp
  show ?case
  proof
    assume "\<exists>dirs files. (root, dirs, files) \<in> set (os_walk tp (Some es)) \<and> f \<in> set files"
    then obtain dirs files where
      m: "(root, dirs, files) \<in> set (os_walk tp (Some es))" and f: "f \<in> set files"
      by blast
    from m walk consider "(root, dirs, files) = (tp, dirnames es, filenames es)"
      | e where "e \<in> set es" "(root, dirs, files) \<in> set (?sub e)"
      by blast
    then show "file_in tp (Some es) root f"
    proof cases
      case 1
      with f have "root = tp \<and> File f \<in> set es"
        by (simp add: set_filenames)
      then show ?thesis unfolding inl by blast
    next
      case 2
      with f sub [of e] have "?inl e" by blast
      with 2(1) show ?thesis unfolding inl by blast
    qed
  next
    assume "file_in tp (Some es) root f"
    then consider "root = tp \<and> File f \<in> set es" | e where "e \<in> set es" "?inl e"
      unfolding inl by blast
    then show "\<exists>dirs files. (root, dirs, files) \<in> set (os_walk tp (Some es)) \<and> f \<in> set files"
    proof cases
      case 1
      then have "(root, dirnames es, filenames es) \<in> set (os_walk tp (Some es))"
        and "f \<in> set (filenames es)"
        unfolding walk by (simp_all add: set_filenames)
      then show ?thesis by blast
    next
      case 2
      with sub [of e] obtain dirs files where
        "(root, dirs, files) \<in> set (?sub e)" "f \<in> set files"
        by blast
      with 2(1) have "(root, dirs, files) \<in> set (os_walk tp (Some es))"
        unfolding walk by blast
      with \<open>f \<in> set files\<close> show ?thesis by blast
    qed
  qed
qed

text \<open>The test that the inner loop applies to one file name.\<close>

lemma set_files_loop:
  "set (files_loop rd root files found) =
     set found \<union> {os_path_join root f | f. f \<in> set files \<and> endswith f ''.md'' \<and>
        (\<exists>text. rd (os_path_join root f) = Inr text \<and> trailing_fence text)}"
  unfolding files_loop_eq fence_case by auto

lemma set_walk_loop:
  "set (walk_loop rd ts found) =
     set found \<union> {os_path_join root f | root f. 
        (\<exists>dirs files. (root, dirs, files) \<in> set ts \<and> f \<in> set files) \<and> \<not> excluded root \<and>
        endswith f ''.md'' \<and>
        (\<exists>text. rd (os_path_join root f) = Inr text \<and> trailing_fence text)}"
proof (induction ts arbitrary: found)
  case Nil
  then show ?case by simp
next
  case (Cons t ts)
  obtain root dirs files where t: "t = (root, dirs, files)"
    by (cases t) auto
  show ?case
  proof (cases "excluded root")
    case True
    then show ?thesis unfolding t by (simp add: Cons.IH) blast
  next
    case False
    then show ?thesis unfolding t by (simp add: Cons.IH set_files_loop) blast
  qed
qed

lemma scan_mem:
  "p \<in> set (scan rd fs) \<longleftrightarrow>
     (\<exists>root f text. file_in ''.'' fs root f \<and> p = os_path_join root f \<and>
        endswith f ''.md'' \<and> \<not> excluded root \<and> rd p = Inr text \<and> trailing_fence text)"
  unfolding scan_def set_walk_loop walk_file_in by auto


lemma files_loop_unreadable:
  assumes "rd p = Inl e"
  shows "files_loop rd root files [] =
    filter (\<lambda>q. q \<noteq> p) (files_loop (rd(p := r)) root files [])"
proof -
  define rd' where "rd' = rd(p := r)"
  define c where "c = (\<lambda>(rd :: reader) f. endswith f ''.md'' \<and>
     (\<exists>text. rd (os_path_join root f) = Inr text \<and> trailing_fence text))"
  have same: "c rd' f = c rd f" if "os_path_join root f \<noteq> p" for f
    using that by (simp add: c_def rd'_def)
  have skip: "\<not> c rd f" if "os_path_join root f = p" for f
    using that assms by (simp add: c_def)
  have "map (os_path_join root) (filter (c rd) files) =
    filter (\<lambda>q. q \<noteq> p) (map (os_path_join root) (filter (c rd') files))"
  proof (induction files)
    case Nil
    show ?case by simp
  next
    case (Cons f files)
    show ?case
    proof (cases "os_path_join root f = p")
      case True
      with skip [of f] Cons show ?thesis by simp
    next
      case False
      with same [of f] Cons show ?thesis by simp
    qed
  qed
  then show ?thesis
    unfolding files_loop_eq fence_case c_def rd'_def by simp
qed

lemma walk_loop_unreadable:
  assumes "rd p = Inl e"
  shows "walk_loop rd ts [] = filter (\<lambda>q. q \<noteq> p) (walk_loop (rd(p := r)) ts [])"
proof -
  define rd' where "rd' = rd(p := r)"
  have f: "files_loop rd root files [] = filter (\<lambda>q. q \<noteq> p) (files_loop rd' root files [])"
    for root files
    unfolding rd'_def using assms by (rule files_loop_unreadable [of rd p e])
  have "walk_loop rd ts [] = filter (\<lambda>q. q \<noteq> p) (walk_loop rd' ts [])"
  proof (induction ts)
    case Nil
    show ?case by simp
  next
    case (Cons t ts)
    obtain root dirs files where t: "t = (root, dirs, files)"
      by (cases t) auto
    have "walk_loop rd (t # ts) [] =
        (if excluded root then [] else files_loop rd root files []) @ walk_loop rd ts []"
      unfolding t by (simp add: walk_loop_eq)
    moreover have "walk_loop rd' (t # ts) [] =
        (if excluded root then [] else files_loop rd' root files []) @ walk_loop rd' ts []"
      unfolding t by (simp add: walk_loop_eq)
    ultimately show ?case
      using Cons f [of root files] by simp
  qed
  then show ?thesis by (simp add: rd'_def)
qed


lemma files_loop_cong:
  assumes "\<forall>f \<in> set files. rd (os_path_join root f) = rd' (os_path_join root f)"
  shows "files_loop rd root files found = files_loop rd' root files found"
  using assms by (induction files arbitrary: found) (simp_all add: Let_def split: sum.splits)

lemma walk_loop_cong:
  assumes "\<forall>(root, dirs, files) \<in> set ts. \<forall>f \<in> set files.
     rd (os_path_join root f) = rd' (os_path_join root f)"
  shows "walk_loop rd ts found = walk_loop rd' ts found"
  using assms
proof (induction ts arbitrary: found)
  case Nil
  then show ?case by simp
next
  case (Cons t ts)
  obtain root dirs files where t: "t = (root, dirs, files)"
    by (cases t) auto
  from Cons.prems have "files_loop rd root files found = files_loop rd' root files found"
    unfolding t by (intro files_loop_cong) simp
  moreover from Cons.prems have "walk_loop rd ts fnd = walk_loop rd' ts fnd" for fnd
    by (intro Cons.IH) simp
  ultimately show ?case unfolding t by simp
qed

lemma print_loop_eq:
  "print_loop ps out = out @ concat (map (\<lambda>p. p @ [CHR 0x0A]) ps)"
  by (induction ps arbitrary: out) (simp_all add: py_print_def)

text \<open>The rules that evaluate the model on a concrete tree.\<close>

lemmas eval_simps =
  scan_def find_trailing_fence_def report_def py_print_def os_path_join_def endswith_def
  excluded_def str_in_def sublist_code suffix_to_prefix splitlines_def strip_def
  isspace_def is_linebreak_def trailing_fence_def sample_tree_def sample_reader_def

lemma scan_sample: "scan sample_reader sample_tree = [''./README.md'', ''./docs/archive.venv.md'']"
  by (simp add: eval_simps)

subsection \<open>Paths, exclusion and the shape of the walk\<close>

lemma valid_name_not_abs: "valid_name n \<Longrightarrow> \<not> prefix ''/'' n"
  by (auto simp: valid_name_def prefix_def)

lemma join_valid:
  assumes "valid_name n"
  shows "os_path_join a n = a @ n \<or> os_path_join a n = a @ ''/'' @ n"
  using valid_name_not_abs [OF assms] by (simp add: os_path_join_def)

lemma sublist_join: "valid_name d \<Longrightarrow> sublist tp (os_path_join tp d)"
  using join_valid [of d tp] by auto

lemma excluded_mono: "sublist a b \<Longrightarrow> excluded a \<Longrightarrow> excluded b"
  unfolding excluded_def str_in_def
  by (meson sublist_order.order.trans)

lemma valid_tree_sub:
  assumes "valid_tree (Some es)" and "Dir d l \<in> set es"
  shows "valid_name d" and "valid_tree l"
proof -
  from assms have v: "valid_entry (Dir d l)"
    by (auto simp: valid_tree_def)
  then show "valid_name d" by (cases l) simp_all
  from v show "valid_tree l" by (cases l) (simp_all add: valid_tree_def)
qed

lemma walk_roots:
  assumes "valid_tree l" and "(root, dirs, files) \<in> set (os_walk tp l)"
  shows "sublist tp root"
  using assms
proof (induction tp l rule: os_walk.induct)
  case (1 tp)
  then show ?case by simp
next
  case (2 tp es)
  from "2.prems"(2) consider "root = tp"
    | d l where "Dir d l \<in> set es" "(root, dirs, files) \<in> set (os_walk (os_path_join tp d) l)"
    by (auto split: entry.splits)
  then show ?case
  proof cases
    case 1
    then show ?thesis by simp
  next
    case 2
    from valid_tree_sub [OF "2.prems"(1) 2(1)] have d: "valid_name d" and l: "valid_tree l"
      by simp_all
    from "2.IH" [OF 2(1) refl l 2(2)] have "sublist (os_path_join tp d) root" .
    with sublist_join [OF d, of tp] show ?thesis
      by (meson sublist_order.order.trans)
  qed
qed

lemma walk_loop_all_excluded:
  assumes "\<forall>(root, dirs, files) \<in> set ts. excluded root"
  shows "walk_loop rd ts found = found"
  using assms by (induction ts arbitrary: found) auto

lemma excluded_subtree:
  assumes "valid_tree l" and "excluded tp"
  shows "walk_loop rd (os_walk tp l) found = found"
proof (rule walk_loop_all_excluded)
  show "\<forall>(root, dirs, files) \<in> set (os_walk tp l). excluded root"
    using walk_roots [OF assms(1)] excluded_mono [OF _ assms(2)] by blast
qed

lemma file_in_Some:
  "file_in tp (Some es) root f \<longleftrightarrow>
     (root = tp \<and> File f \<in> set es) \<or>
     (\<exists>d l. Dir d l \<in> set es \<and> file_in (os_path_join tp d) l root f)"
proof -
  have "(case e of File g \<Rightarrow> False | Dir d l \<Rightarrow> file_in (os_path_join tp d) l root f) \<longleftrightarrow>
      (\<exists>d l. e = Dir d l \<and> file_in (os_path_join tp d) l root f)" for e
    by (cases e) simp_all
  then show ?thesis by auto
qed

lemma file_in_valid:
  assumes "valid_tree l" and "file_in tp l root f"
  shows "valid_name f"
  using assms
proof (induction tp l rule: os_walk.induct)
  case (1 tp)
  then show ?case by simp
next
  case (2 tp es)
  from "2.prems"(2) consider "File f \<in> set es"
    | d l where "Dir d l \<in> set es" "file_in (os_path_join tp d) l root f"
    unfolding file_in_Some by blast
  then show ?case
  proof cases
    case 1
    with "2.prems"(1) have "valid_entry (File f)"
      by (auto simp: valid_tree_def)
    then show ?thesis by simp
  next
    case 2
    from valid_tree_sub(2) [OF "2.prems"(1) 2(1)] "2.IH" [OF 2(1) refl _ 2(2)]
    show ?thesis by simp
  qed
qed

lemma under_prefix:
  assumes f: "valid_name f" and p: "prefix (P @ ''/'') (os_path_join root f)"
  shows "sublist P root"
proof -
  from join_valid [OF f, of root] obtain s where
    j: "os_path_join root f = (root @ s) @ f" and s: "s = [] \<or> s = ''/''"
    by auto
  from p obtain zs where z: "(root @ s) @ f = (P @ ''/'') @ zs"
    unfolding j prefix_def by auto
  then consider us where "root @ s = (P @ ''/'') @ us"
    | us where "us \<noteq> []" "P @ ''/'' = (root @ s) @ us" "f = us @ zs"
    unfolding append_eq_append_conv2 [of "root @ s" f "P @ ''/''" zs]
    by (metis append.right_neutral)
  then show ?thesis
  proof cases
    case 1
    show ?thesis
    proof (cases "s = []")
      case True
      with 1 have "root = P @ (''/'' @ us)" by simp
      then show ?thesis by (metis sublist_append_rightI)
    next
      case False
      with s have s': "s = ''/''" by simp
      show ?thesis
      proof (cases us rule: rev_cases)
        case Nil
        with 1 s' have "root = P" by simp
        then show ?thesis by simp
      next
        case (snoc vs v)
        with 1 s' have "root = P @ (''/'' @ vs)" by simp
        then show ?thesis by (metis sublist_append_rightI)
      qed
    qed
  next
    case 2
    from 2(1,2) have "last us = CHR ''/''"
      by (metis append_assoc last_appendR last_snoc)
    with 2(1) have "CHR ''/'' \<in> set us"
      by (metis last_in_set)
    with 2(3) f show ?thesis
      by (simp add: valid_name_def)
  qed
qed


lemma walk_loop_found: "walk_loop rd ts found = found @ walk_loop rd ts []"
  by (simp add: walk_loop_eq)

lemma walk_loop_append:
  "walk_loop rd (ts @ us) found = walk_loop rd us (walk_loop rd ts found)"
  by (simp add: walk_loop_eq)

lemma walk_loop_concat_cong:
  assumes "\<forall>x \<in> set xs. walk_loop rd (F x) [] = walk_loop rd (G x) []"
  shows "walk_loop rd (concat (map F xs)) found = walk_loop rd (concat (map G xs)) found"
  using assms
proof (induction xs arbitrary: found)
  case Nil
  show ?case by simp
next
  case (Cons x xs)
  have "walk_loop rd (F x) found = walk_loop rd (G x) found"
    using Cons.prems walk_loop_found [of rd "F x" found] walk_loop_found [of rd "G x" found]
    by simp
  moreover have "walk_loop rd (concat (map F xs)) fnd = walk_loop rd (concat (map G xs)) fnd"
    for fnd
    using Cons.prems by (intro Cons.IH) simp
  ultimately show ?case
    by (simp add: walk_loop_append)
qed

lemma pruned_same:
  assumes "valid_tree l"
  shows "walk_loop rd (os_walk tp l) found = walk_loop rd (os_walk_pruned tp l) found"
  using assms
proof (induction tp l arbitrary: found rule: os_walk.induct)
  case (1 tp)
  show ?case by simp
next
  case (2 tp es)
  show ?case
  proof (cases "excluded tp")
    case True
    with excluded_subtree [OF "2.prems" True] show ?thesis by simp
  next
    case False
    let ?F = "\<lambda>e. case e of File f \<Rightarrow> [] | Dir d l \<Rightarrow> os_walk (os_path_join tp d) l"
    let ?G = "\<lambda>e. case e of File f \<Rightarrow> [] | Dir d l \<Rightarrow> os_walk_pruned (os_path_join tp d) l"
    have "walk_loop rd (?F e) [] = walk_loop rd (?G e) []" if "e \<in> set es" for e
    proof (cases e)
      case (File f)
      then show ?thesis by simp
    next
      case (Dir d l)
      with that "2.prems" have "valid_tree l"
        using valid_tree_sub(2) by blast
      from "2.IH" [OF that Dir this] Dir show ?thesis by simp
    qed
    then have "walk_loop rd (concat (map ?F es)) fnd = walk_loop rd (concat (map ?G es)) fnd"
      for fnd
      by (intro walk_loop_concat_cong) blast
    with False show ?thesis by simp
  qed
qed

lemma as_empty_Dir:
  "as_empty (Dir d l) = Dir d (Some (case l of None \<Rightarrow> [] | Some es \<Rightarrow> map as_empty es))"
  by (cases l) simp_all

lemma dirnames_as_empty: "dirnames (map as_empty es) = dirnames es"
  by (induction es rule: dirnames.induct) (simp_all add: as_empty_Dir)

lemma filenames_as_empty: "filenames (map as_empty es) = filenames es"
  by (induction es rule: filenames.induct) (simp_all add: as_empty_Dir)

lemma as_empty_same:
  "walk_loop rd
     (os_walk tp (Some (case l of None \<Rightarrow> [] | Some es \<Rightarrow> map as_empty es))) found =
   walk_loop rd (os_walk tp l) found"
proof (induction tp l arbitrary: found rule: os_walk.induct)
  case (1 tp)
  show ?case by simp
next
  case (2 tp es)
  let ?F = "\<lambda>e. case as_empty e of File f \<Rightarrow> [] | Dir d l \<Rightarrow> os_walk (os_path_join tp d) l"
  let ?G = "\<lambda>e. case e of File f \<Rightarrow> [] | Dir d l \<Rightarrow> os_walk (os_path_join tp d) l"
  have "walk_loop rd (?F e) [] = walk_loop rd (?G e) []" if "e \<in> set es" for e
  proof (cases e)
    case (File f)
    then show ?thesis by simp
  next
    case (Dir d l)
    from "2.IH" [OF that Dir, of "[]"] Dir show ?thesis
      by (simp add: as_empty_Dir)
  qed
  then have "walk_loop rd (concat (map ?F es)) fnd = walk_loop rd (concat (map ?G es)) fnd"
    for fnd
    by (intro walk_loop_concat_cong) blast
  then show ?case
    by (simp add: dirnames_as_empty filenames_as_empty o_def)
qed

lemma walk_extra_excluded:
  assumes "valid_tree l" and "t \<in> set (os_walk tp l)"
  shows "t \<in> set (os_walk_pruned tp l) \<or> excluded (fst t)"
  using assms
proof (induction tp l rule: os_walk.induct)
  case (1 tp)
  then show ?case by simp
next
  case (2 tp es)
  show ?case
  proof (cases "excluded tp")
    case True
    obtain root dirs files where t: "t = (root, dirs, files)"
      by (cases t) auto
    from walk_roots [OF "2.prems"(1)] "2.prems"(2) have "sublist tp root"
      unfolding t by blast
    with True have "excluded root"
      using excluded_mono by blast
    then show ?thesis by (simp add: t)
  next
    case False
    from "2.prems"(2) consider "t = (tp, dirnames es, filenames es)"
      | d l where "Dir d l \<in> set es" "t \<in> set (os_walk (os_path_join tp d) l)"
      by (auto split: entry.splits)
    then show ?thesis
    proof cases
      case 1
      with False show ?thesis by simp
    next
      case 2
      from valid_tree_sub(2) [OF "2.prems"(1) 2(1)] have "valid_tree l" .
      from "2.IH" [OF 2(1) refl this 2(2)]
      have "t \<in> set (os_walk_pruned (os_path_join tp d) l) \<or> excluded (fst t)" .
      moreover have "set (os_walk_pruned (os_path_join tp d) l)
          \<subseteq> set (os_walk_pruned tp (Some es))"
        using False 2(1) by (auto intro!: bexI [of _ "Dir d l"])
      ultimately show ?thesis by blast
    qed
  qed
qed

subsection \<open>The report\<close>

text \<open>
  Claim C4. The standard output has one of two shapes. When nothing was found it is the
  single line \<^verbatim>\<open>No markdown files end with a trailing fence (```).\<close>; otherwise
  it is the line \<^verbatim>\<open>Files with trailing fence:\<close> followed by the found paths,
  one print each, in the order in which the walk collected them.
\<close>

theorem report_shapes:
  "find_trailing_fence rd fs =
     (if scan rd fs = []
      then ''No markdown files end with a trailing fence (```).'' @ [CHR 0x0A]
      else ''Files with trailing fence:'' @ [CHR 0x0A] @
           concat (map (\<lambda>p. p @ [CHR 0x0A]) (scan rd fs)))"
  by (simp add: find_trailing_fence_def report_def print_loop_eq py_print_def)

theorem report_shapes_witness:
  "find_trailing_fence sample_reader sample_tree =
     ''Files with trailing fence:'' @ [CHR 0x0A] @
     ''./README.md'' @ [CHR 0x0A] @ ''./docs/archive.venv.md'' @ [CHR 0x0A]
   \<and> find_trailing_fence sample_reader None =
     ''No markdown files end with a trailing fence (```).'' @ [CHR 0x0A]"
  using report_shapes [of sample_reader sample_tree] report_shapes [of sample_reader None]
  by (simp add: scan_sample) (simp add: scan_def)

subsection \<open>What the walk collects\<close>

text \<open>
  Claim C1. For every directory tree, the list found by the scan holds exactly the paths
  \<^verbatim>\<open>os.path.join(root, f)\<close> of the files \<open>f\<close> of the tree whose name ends in the
  literal \<^verbatim>\<open>.md\<close>, whose directory path \<open>root\<close> is not excluded, and whose text,
  split into lines, has a last line that strips to the three backticks. No other path is
  in the list: not that of a file with another suffix, whatever its text, and not that
  of a file that cannot be read.
\<close>

theorem trailing_fence_files:
  "p \<in> set (scan rd fs) \<longleftrightarrow>
     (\<exists>root f text. file_in ''.'' fs root f \<and> p = os_path_join root f \<and>
        endswith f ''.md'' \<and> \<not> excluded root \<and> rd p = Inr text \<and> trailing_fence text)"
  by (rule scan_mem)

theorem trailing_fence_files_witness:
  "(\<exists>root f text. file_in ''.'' sample_tree root f \<and> ''./README.md'' = os_path_join root f \<and>
      endswith f ''.md'' \<and> \<not> excluded root \<and> sample_reader ''./README.md'' = Inr text \<and>
      trailing_fence text) \<and>
   \<not> (\<exists>root f text. file_in ''.'' sample_tree root f \<and>
      ''./docs/notes.txt'' = os_path_join root f \<and>
      endswith f ''.md'' \<and> \<not> excluded root \<and> sample_reader ''./docs/notes.txt'' = Inr text \<and>
      trailing_fence text)"
  using trailing_fence_files [of "''./README.md''" sample_reader sample_tree]
    trailing_fence_files [of "''./docs/notes.txt''" sample_reader sample_tree]
  by (simp add: scan_sample)

text \<open>
  Claim C6. A file whose text splits into no line at all (the text of a file of zero
  bytes) is never in the list found by the scan.
\<close>

theorem empty_file_never_found:
  assumes "rd p = Inr text" and "splitlines text = []"
  shows "p \<notin> set (scan rd fs)"
  using assms by (simp add: scan_mem trailing_fence_def)

theorem empty_file_never_found_witness:
  "sample_reader ''./docs/empty.md'' = Inr [] \<and> splitlines [] = [] \<and>
   ''./docs/empty.md'' \<notin> set (scan sample_reader sample_tree)"
proof -
  have r: "sample_reader ''./docs/empty.md'' = Inr []"
    by (simp add: sample_reader_def)
  have s: "splitlines [] = []"
    by (simp add: splitlines_def)
  from r s empty_file_never_found [of sample_reader "''./docs/empty.md''" "[]" sample_tree]
  show ?thesis by simp
qed

text \<open>
  Claim C8. The exclusion test reads the directory path only. A file whose own name
  contains one of the three substrings, in a directory whose path contains none of them,
  is opened and tested like any other, and its path is found when its name ends in
  \<^verbatim>\<open>.md\<close> and its text ends in a bare fence.
\<close>

theorem exclusion_ignores_file_name:
  assumes "file_in ''.'' fs root f" and "\<not> excluded root" and "excluded f"
    and "endswith f ''.md''" and "rd (os_path_join root f) = Inr text"
    and "trailing_fence text"
  shows "os_path_join root f \<in> set (scan rd fs)"
  using assms unfolding scan_mem by blast

theorem exclusion_ignores_file_name_witness:
  "file_in ''.'' sample_tree ''./docs'' ''archive.venv.md'' \<and> \<not> excluded ''./docs'' \<and>
   excluded ''archive.venv.md'' \<and> endswith ''archive.venv.md'' ''.md'' \<and>
   ''./docs/archive.venv.md'' \<in> set (scan sample_reader sample_tree)"
proof -
  have 1: "file_in ''.'' sample_tree ''./docs'' ''archive.venv.md''"
    by (simp add: sample_tree_def os_path_join_def endswith_def suffix_to_prefix)
  have 2: "\<not> excluded ''./docs''"
    by (simp add: excluded_def str_in_def sublist_code)
  have 3: "excluded ''archive.venv.md''"
    by (simp add: excluded_def str_in_def sublist_code)
  have 4: "endswith ''archive.venv.md'' ''.md''"
    by (simp add: endswith_def suffix_to_prefix)
  have j: "os_path_join ''./docs'' ''archive.venv.md'' = ''./docs/archive.venv.md''"
    by (simp add: os_path_join_def endswith_def suffix_to_prefix)
  have 5: "sample_reader (os_path_join ''./docs'' ''archive.venv.md'') =
      Inr (''x'' @ [CHR 0x0A] @ ''  ```  '' @ [CHR 0x0A])"
    unfolding j by (simp add: sample_reader_def)
  have 6: "trailing_fence (''x'' @ [CHR 0x0A] @ ''  ```  '' @ [CHR 0x0A])"
    by (simp add: trailing_fence_def splitlines_def strip_def isspace_def is_linebreak_def)
  from exclusion_ignores_file_name [where rd = sample_reader, OF 1 2 3 4 5 6] 1 2 3 4 show ?thesis
    unfolding j by simp
qed

text \<open>
  Claim C5. For a non-empty file of the tree whose name ends in \<^verbatim>\<open>.md\<close>, in a
  directory that is not excluded, the path is found exactly when the last line, with the
  whitespace around it removed, is the three backticks. So a last line of three backticks
  between blanks is found, and a last line of three backticks followed by a language tag
  is not.
\<close>

theorem last_line_decides:
  assumes "file_in ''.'' fs root f" and "\<not> excluded root" and "endswith f ''.md''"
    and "rd (os_path_join root f) = Inr text" and "text \<noteq> []"
  shows "(os_path_join root f \<in> set (scan rd fs) \<longleftrightarrow>
            strip (last (splitlines text)) = ''```'') \<and>
    (last (splitlines text) = ''  ```  '' \<longrightarrow> os_path_join root f \<in> set (scan rd fs)) \<and>
    (last (splitlines text) = ''```python'' \<longrightarrow> os_path_join root f \<notin> set (scan rd fs))"
proof -
  from assms(5) have l: "splitlines text \<noteq> []"
    by (simp add: splitlines_Nil_iff)
  have "os_path_join root f \<in> set (scan rd fs) \<longleftrightarrow> trailing_fence text"
    unfolding scan_mem using assms(1-4) by auto
  with l have d: "os_path_join root f \<in> set (scan rd fs) \<longleftrightarrow>
      strip (last (splitlines text)) = ''```''"
    by (simp add: trailing_fence_def)
  show ?thesis
    unfolding d using strip_fence_blanks strip_fence_python by auto
qed

theorem last_line_decides_witness:
  "last (splitlines (''x'' @ [CHR 0x0A] @ ''  ```  '' @ [CHR 0x0A])) = ''  ```  '' \<and>
   ''./docs/archive.venv.md'' \<in> set (scan sample_reader sample_tree) \<and>
   last (splitlines (''text'' @ [CHR 0x0A] @ ''```python'')) = ''```python'' \<and>
   ''./docs/code.md'' \<notin> set (scan sample_reader sample_tree)"
proof -
  have d: "file_in ''.'' sample_tree ''./docs'' ''archive.venv.md''"
      "file_in ''.'' sample_tree ''./docs'' ''code.md''"
    by (simp_all add: sample_tree_def os_path_join_def endswith_def suffix_to_prefix)
  have x: "\<not> excluded ''./docs''"
    by (simp add: excluded_def str_in_def sublist_code)
  have e: "endswith ''archive.venv.md'' ''.md''" "endswith ''code.md'' ''.md''"
    by (simp_all add: endswith_def suffix_to_prefix)
  have j: "os_path_join ''./docs'' ''archive.venv.md'' = ''./docs/archive.venv.md''"
      "os_path_join ''./docs'' ''code.md'' = ''./docs/code.md''"
    by (simp_all add: os_path_join_def endswith_def suffix_to_prefix)
  have r1: "sample_reader (os_path_join ''./docs'' ''archive.venv.md'') =
      Inr (''x'' @ [CHR 0x0A] @ ''  ```  '' @ [CHR 0x0A])"
    unfolding j by (simp add: sample_reader_def)
  have r2: "sample_reader (os_path_join ''./docs'' ''code.md'') =
      Inr (''text'' @ [CHR 0x0A] @ ''```python'')"
    unfolding j by (simp add: sample_reader_def)
  have l1: "last (splitlines (''x'' @ [CHR 0x0A] @ ''  ```  '' @ [CHR 0x0A])) = ''  ```  ''"
    by (simp add: splitlines_def is_linebreak_def)
  have l2: "last (splitlines (''text'' @ [CHR 0x0A] @ ''```python'')) = ''```python''"
    by (simp add: splitlines_def is_linebreak_def)
  have n1: "''x'' @ [CHR 0x0A] @ ''  ```  '' @ [CHR 0x0A] \<noteq> []"
    and n2: "''text'' @ [CHR 0x0A] @ ''```python'' \<noteq> []"
    by simp_all
  from last_line_decides [where rd = sample_reader, OF d(1) x e(1) r1 n1] l1
  have "''./docs/archive.venv.md'' \<in> set (scan sample_reader sample_tree)"
    unfolding j by blast
  moreover from last_line_decides [where rd = sample_reader, OF d(2) x e(2) r2 n2] l2
  have "''./docs/code.md'' \<notin> set (scan sample_reader sample_tree)"
    unfolding j by blast
  ultimately show ?thesis
    using l1 l2 by blast
qed

subsection \<open>Files that cannot be read\<close>

text \<open>
  Claim C3. When opening or reading a path raises, whatever the exception, the path is
  not in the found list, and the rest of the scan is as if nothing had happened: the
  found list is the one of a run in which the read had any other outcome \<open>r\<close>, without
  that path, and the standard output is, character for character, that of a run in which
  the file was readable and empty. So nothing about the failure is printed, and every
  other matching file is reported.
\<close>

theorem unreadable_file_skipped:
  assumes "rd p = Inl e"
  shows "p \<notin> set (scan rd fs) \<and>
    scan rd fs = filter (\<lambda>q. q \<noteq> p) (scan (rd(p := r)) fs) \<and>
    find_trailing_fence rd fs = find_trailing_fence (rd(p := Inr [])) fs"
proof -
  have 1: "p \<notin> set (scan rd fs)"
    using assms by (simp add: scan_mem)
  have 2: "scan rd fs = filter (\<lambda>q. q \<noteq> p) (scan (rd(p := r')) fs)" for r'
    unfolding scan_def using assms by (rule walk_loop_unreadable [of rd p e])
  have "p \<notin> set (scan (rd(p := Inr [])) fs)"
    by (simp add: scan_mem trailing_fence_def splitlines_Nil_iff)
  then have "filter (\<lambda>q. q \<noteq> p) (scan (rd(p := Inr [])) fs) = scan (rd(p := Inr [])) fs"
    unfolding filter_id_conv by blast
  with 2 [of "Inr []"] have 3: "scan rd fs = scan (rd(p := Inr [])) fs"
    by simp
  from 1 2 [of r] 3 show ?thesis
    unfolding find_trailing_fence_def by simp
qed

theorem unreadable_file_skipped_witness:
  "sample_reader ''./a.md'' = Inl PermissionError \<and>
   ''./a.md'' \<notin> set (scan sample_reader sample_tree) \<and>
   scan sample_reader sample_tree =
     filter (\<lambda>q. q \<noteq> ''./a.md'') (scan (sample_reader(''./a.md'' := Inr ''```'')) sample_tree) \<and>
   find_trailing_fence sample_reader sample_tree =
     find_trailing_fence (sample_reader(''./a.md'' := Inr [])) sample_tree"
proof -
  have h: "sample_reader ''./a.md'' = Inl PermissionError"
    by (simp add: sample_reader_def)
  from h unreadable_file_skipped
    [of sample_reader "''./a.md''" PermissionError sample_tree "Inr ''```''"]
  show ?thesis by blast
qed

subsection \<open>Determinism\<close>

text \<open>
  Claim C7. The standard output is a function of the walk and of the outcomes of the
  reads: two runs for which \<^verbatim>\<open>os.walk\<close> yields the same triples in the same
  order, and in which every file of every walked directory reads the same, print the
  same characters.
\<close>

theorem scan_deterministic:
  assumes "os_walk ''.'' fs = os_walk ''.'' fs'"
    and "\<forall>(root, dirs, files) \<in> set (os_walk ''.'' fs). \<forall>f \<in> set files.
           rd (os_path_join root f) = rd' (os_path_join root f)"
  shows "find_trailing_fence rd fs = find_trailing_fence rd' fs'"
  using walk_loop_cong [OF assms(2), of "[]"] assms(1)
  by (simp add: find_trailing_fence_def scan_def)

theorem scan_deterministic_witness:
  "os_walk ''.'' (Some [File ''a.md'', Dir ''d'' None, File ''b.md'']) =
     os_walk ''.'' (Some [Dir ''d'' None, File ''a.md'', File ''b.md'']) \<and>
   find_trailing_fence (\<lambda>p. if p = ''./a.md'' then Inr ''```'' else Inl FileNotFoundError)
       (Some [File ''a.md'', Dir ''d'' None, File ''b.md'']) =
     find_trailing_fence (\<lambda>p. if p = ''./a.md'' then Inr ''```''
                               else if p = ''./c.md'' then Inr ''```''
                               else Inl FileNotFoundError)
       (Some [Dir ''d'' None, File ''a.md'', File ''b.md''])"
proof -
  have w: "os_walk ''.'' (Some [File ''a.md'', Dir ''d'' None, File ''b.md'']) =
     os_walk ''.'' (Some [Dir ''d'' None, File ''a.md'', File ''b.md''])"
    by simp
  have r: "\<forall>(root, dirs, files) \<in> set (os_walk ''.'' (Some [File ''a.md'', Dir ''d'' None, File ''b.md''])).
      \<forall>f \<in> set files.
        (\<lambda>p. if p = ''./a.md'' then Inr ''```'' else Inl FileNotFoundError) (os_path_join root f) =
        (\<lambda>p. if p = ''./a.md'' then Inr ''```''
              else if p = ''./c.md'' then Inr ''```''
              else Inl FileNotFoundError) (os_path_join root f)"
    by (simp add: os_path_join_def endswith_def suffix_to_prefix)
  from w scan_deterministic [OF w r] show ?thesis by blast
qed

subsection \<open>Excluded directories\<close>

text \<open>
  Claim C2, as the specification states it, says that the traversal does not go into a
  directory whose path is excluded and lists neither its files nor its subdirectories.
  The script only skips the iteration of such a directory; it never edits \<open>dirs\<close>, so
  \<^verbatim>\<open>os.walk\<close> has listed the directory and goes on into its subdirectories.
  On the sample tree the walk yields the triple of \<^verbatim>\<open>./.git\<close> with its file and
  its subdirectory, and then the triple of \<^verbatim>\<open>./.git/objects\<close> with its file.
\<close>

theorem excluded_directory_is_walked:
  "excluded ''./.git'' \<and>
   (''./.git'', [''objects''], [''x.md'']) \<in> set (os_walk ''.'' sample_tree) \<and>
   (''./.git/objects'', [], [''y.md'']) \<in> set (os_walk ''.'' sample_tree)"
  by (simp add: sample_tree_def os_path_join_def endswith_def suffix_to_prefix
      excluded_def str_in_def sublist_code)

text \<open>
  Claim C2, amended. For names as a file system reports them (not empty, without a
  slash): when the path \<open>P\<close> of a directory contains one of the three substrings, the
  iterations for \<open>P\<close> and for every directory walked below it leave the found list as it
  was, whatever the files there contain, and no path that lies under \<open>P\<close> is in the found
  list of the scan.
\<close>

theorem exclusion_law:
  assumes "valid_tree fs" and "valid_tree l" and "excluded P"
  shows "walk_loop rd (os_walk P l) found = found \<and>
    (\<forall>p. prefix (P @ ''/'') p \<longrightarrow> p \<notin> set (scan rd fs))"
proof -
  have "p \<notin> set (scan rd fs)" if pre: "prefix (P @ ''/'') p" for p
  proof
    assume "p \<in> set (scan rd fs)"
    then obtain root f where
      f: "file_in ''.'' fs root f" and p: "p = os_path_join root f" and r: "\<not> excluded root"
      unfolding scan_mem by blast
    from file_in_valid [OF assms(1) f] pre have "sublist P root"
      unfolding p by (rule under_prefix)
    with assms(3) r show False
      using excluded_mono by blast
  qed
  moreover have "walk_loop rd (os_walk P l) found = found"
    using assms(2,3) by (rule excluded_subtree)
  ultimately show ?thesis by blast
qed

theorem exclusion_law_witness:
  "valid_tree sample_tree \<and>
   valid_tree (Some [File ''x.md'', Dir ''objects'' (Some [File ''y.md''])]) \<and>
   excluded ''./.git'' \<and>
   walk_loop sample_reader
     (os_walk ''./.git'' (Some [File ''x.md'', Dir ''objects'' (Some [File ''y.md''])]))
     [''./README.md''] = [''./README.md''] \<and>
   sample_reader ''./.git/objects/y.md'' = Inr ''```'' \<and>
   ''./.git/objects/y.md'' \<notin> set (scan sample_reader sample_tree)"
proof -
  have 1: "valid_tree sample_tree"
    by (simp add: valid_tree_def sample_tree_def valid_name_def)
  have 2: "valid_tree (Some [File ''x.md'', Dir ''objects'' (Some [File ''y.md''])])"
    by (simp add: valid_tree_def valid_name_def)
  have 3: "excluded ''./.git''"
    by (simp add: excluded_def str_in_def sublist_code)
  have 4: "prefix (''./.git'' @ ''/'') ''./.git/objects/y.md''"
    by simp
  have 5: "sample_reader ''./.git/objects/y.md'' = Inr ''```''"
    by (simp add: sample_reader_def)
  from exclusion_law [OF 1 2 3, of sample_reader "[''./README.md'']"] 4
  have "walk_loop sample_reader
     (os_walk ''./.git'' (Some [File ''x.md'', Dir ''objects'' (Some [File ''y.md''])]))
     [''./README.md''] = [''./README.md'']"
    and "''./.git/objects/y.md'' \<notin> set (scan sample_reader sample_tree)"
    by blast+
  with 1 2 3 5 show ?thesis by blast
qed

text \<open>
  Claim C9. The script walks the excluded directories too, yet for names as a file
  system reports them its found list is the one of the pruned walk: every triple that
  the full walk yields and the pruned walk does not has an excluded path, so its
  iteration is skipped.
\<close>

theorem pruned_walk_same_result:
  assumes "valid_tree fs"
  shows "scan rd fs = scan_pruned rd fs \<and>
    (\<forall>t \<in> set (os_walk ''.'' fs). t \<in> set (os_walk_pruned ''.'' fs) \<or> excluded (fst t))"
  using pruned_same [OF assms] walk_extra_excluded [OF assms]
  unfolding scan_def scan_pruned_def by blast

theorem pruned_walk_same_result_witness:
  "valid_tree sample_tree \<and>
   scan sample_reader sample_tree = scan_pruned sample_reader sample_tree \<and>
   (''./.git/objects'', [], [''y.md'']) \<in> set (os_walk ''.'' sample_tree) \<and>
   (''./.git/objects'', [], [''y.md'']) \<notin> set (os_walk_pruned ''.'' sample_tree) \<and>
   excluded (fst (''./.git/objects'', [] :: string list, [''y.md'']))"
proof -
  have 1: "valid_tree sample_tree"
    by (simp add: valid_tree_def sample_tree_def valid_name_def)
  have 2: "(''./.git/objects'', [], [''y.md'']) \<in> set (os_walk ''.'' sample_tree)"
    by (simp add: sample_tree_def os_path_join_def endswith_def suffix_to_prefix)
  have 3: "(''./.git/objects'', [], [''y.md'']) \<notin> set (os_walk_pruned ''.'' sample_tree)"
    by (simp add: sample_tree_def os_path_join_def endswith_def suffix_to_prefix
        excluded_def str_in_def sublist_code)
  from pruned_walk_same_result [OF 1, of sample_reader] 2 3
  have "scan sample_reader sample_tree = scan_pruned sample_reader sample_tree"
    and "excluded (fst (''./.git/objects'', [] :: string list, [''y.md'']))"
    by blast+
  with 1 2 3 show ?thesis by blast
qed

subsection \<open>Directories that cannot be listed\<close>

text \<open>
  Claim C10. A directory whose listing fails yields nothing in the walk and no message:
  the found list and the standard output are those of the tree in which every such
  directory is empty, so the scan runs to its end over the rest of the tree. When the
  current directory itself cannot be listed, the output is the line for an empty result.
  For every tree \<open>l\<close>, with or without such directories, the output has one of the two
  shapes.
\<close>

theorem listing_failure_swallowed:
  "os_walk tp None = [] \<and>
   find_trailing_fence rd None =
     ''No markdown files end with a trailing fence (```).'' @ [CHR 0x0A] \<and>
   scan rd (Some es) = scan rd (Some (map as_empty es)) \<and>
   find_trailing_fence rd (Some es) = find_trailing_fence rd (Some (map as_empty es)) \<and>
   (find_trailing_fence rd l =
      ''No markdown files end with a trailing fence (```).'' @ [CHR 0x0A] \<or>
    (\<exists>found. found \<noteq> [] \<and> find_trailing_fence rd l =
      ''Files with trailing fence:'' @ [CHR 0x0A] @ concat (map (\<lambda>p. p @ [CHR 0x0A]) found)))"
proof -
  have "scan rd (Some es) = scan rd (Some (map as_empty es))"
    using as_empty_same [of rd "''.''" "Some es" "[]"] by (simp add: scan_def)
  moreover have "find_trailing_fence rd None =
      ''No markdown files end with a trailing fence (```).'' @ [CHR 0x0A]"
    by (simp add: find_trailing_fence_def scan_def report_def py_print_def)
  moreover have "find_trailing_fence rd l =
      ''No markdown files end with a trailing fence (```).'' @ [CHR 0x0A] \<or>
    (\<exists>found. found \<noteq> [] \<and> find_trailing_fence rd l =
      ''Files with trailing fence:'' @ [CHR 0x0A] @ concat (map (\<lambda>p. p @ [CHR 0x0A]) found))"
  proof (cases "scan rd l = []")
    case True
    then show ?thesis
      by (simp add: find_trailing_fence_def report_def py_print_def)
  next
    case False
    then have "find_trailing_fence rd l =
        ''Files with trailing fence:'' @ [CHR 0x0A] @
        concat (map (\<lambda>p. p @ [CHR 0x0A]) (scan rd l))"
      by (simp add: find_trailing_fence_def report_def print_loop_eq py_print_def)
    with False show ?thesis by blast
  qed
  ultimately show ?thesis
    by (simp add: find_trailing_fence_def)
qed

theorem listing_failure_swallowed_witness:
  "os_walk ''./locked'' None = [] \<and>
   find_trailing_fence sample_reader None =
     ''No markdown files end with a trailing fence (```).'' @ [CHR 0x0A] \<and>
   find_trailing_fence sample_reader
     (Some [File ''README.md'', Dir ''locked'' None, File ''a.md'']) =
   find_trailing_fence sample_reader
     (Some [File ''README.md'', Dir ''locked'' (Some []), File ''a.md'']) \<and>
   find_trailing_fence sample_reader
     (Some [File ''README.md'', Dir ''locked'' None, File ''a.md'']) =
     ''Files with trailing fence:'' @ [CHR 0x0A] @ ''./README.md'' @ [CHR 0x0A]"
proof -
  have "find_trailing_fence sample_reader
     (Some [File ''README.md'', Dir ''locked'' None, File ''a.md'']) =
     ''Files with trailing fence:'' @ [CHR 0x0A] @ ''./README.md'' @ [CHR 0x0A]"
    by (simp add: eval_simps)
  with listing_failure_swallowed
    [of "''./locked''" sample_reader "[File ''README.md'', Dir ''locked'' None, File ''a.md'']"
      None]
  show ?thesis by simp
qed

end
